theory Spec2Isabelle
  imports Main "HOL-Library.Char_ord" "HOL-Library.List_Lexorder" "HOL-Library.Multiset"
begin

section \<open>Faceted aggregation of eprint records (eprintviews/aggregator.py)\<close>

text \<open>
  The embedding follows \<^verbatim>\<open>src/eprintviews/aggregator.py\<close>. Every exception the Python
  can raise is a value \<open>Inl e\<close> of a sum type; a facet returns \<open>error + group list\<close>.
  A Python string is a \<open>string\<close>, one \<open>char\<close> per code point; strings are compared
  lexicographically by code point, as Python's \<^verbatim>\<open><\<close> and \<^verbatim>\<open>list.sort\<close> do.
\<close>

datatype error =
    KeyError string
  | NameError string
  | ValueError string
  | OverflowError

subsection \<open>Records\<close>

text \<open>
  One record is a decoded JSON object whose fields may each be absent (\<open>None\<close>). The field
  types are those of the data model: string fields, \<^verbatim>\<open>creators\<close> a sequence of objects
  with optional \<^verbatim>\<open>id\<close> and \<^verbatim>\<open>display_name\<close>, \<^verbatim>\<open>subjects\<close> an object with an optional
  sequence \<^verbatim>\<open>items\<close>. The Python field \<^verbatim>\<open>id\<close> is \<open>creator_id\<close> and \<^verbatim>\<open>type\<close> is \<open>otype\<close> here.
\<close>

record creator =
  creator_id :: "string option"
  display_name :: "string option"

record eprint =
  date :: "string option"
  eprint_id :: "string option"
  otype :: "string option"
  creators :: "creator list option"
  publication :: "string option"
  issn :: "string option"
  collection :: "string option"
  event_title :: "string option"
  event_location :: "string option"
  event_dates :: "string option"
  lastmod :: "string option"
  subjects :: "string list option option"

text \<open>
  A group descriptor is the dictionary built by a facet: \<^verbatim>\<open>key\<close>, \<^verbatim>\<open>label\<close>, \<^verbatim>\<open>count\<close>
  (\<open>count_val\<close>) and \<^verbatim>\<open>objects\<close> are always there; the facet-specific entries
  (\<^verbatim>\<open>year\<close>, \<^verbatim>\<open>people_id\<close>, \<^verbatim>\<open>sort_name\<close>, ...) are the association list \<open>extras\<close>,
  so that a test \<^verbatim>\<open>'sort_name' in o\<close> of the source is a lookup in \<open>extras\<close>.
\<close>

record group =
  key :: string
  label :: string
  count_val :: int
  extras :: "(string \<times> string) list"
  objects :: "eprint list"

text \<open>
  The accumulator of a facet is a Python dict from strings to group descriptors. Python
  dicts iterate in insertion order, so the model is an association list in that order.
\<close>

type_synonym gdict = "(string \<times> group) list"

definition dict_has :: "gdict \<Rightarrow> string \<Rightarrow> bool" where
  "dict_has d k = (map_of d k \<noteq> None)"

text \<open>
  Every facet but the last ends its loop body with the same three statements,
  \<^verbatim>\<open>if not k in d: d[k] = fresh\<close>, \<^verbatim>\<open>d[k]['count'] += 1\<close>, \<^verbatim>\<open>d[k]['objects'].append(obj)\<close>;
  \<open>group_add\<close> is that block.
\<close>

definition bump :: "eprint \<Rightarrow> group \<Rightarrow> group" where
  "bump obj g = g\<lparr>count_val := count_val g + 1, objects := objects g @ [obj]\<rparr>"

definition group_add :: "gdict \<Rightarrow> string \<Rightarrow> group \<Rightarrow> eprint \<Rightarrow> gdict" where
  "group_add d k fresh obj =
     (let d' = (if dict_has d k then d else d @ [(k, fresh)])
      in map (\<lambda>(k', g). if k' = k then (k', bump obj g) else (k', g)) d')"

subsection \<open>Sorting with a key function\<close>

text \<open>
  \<^verbatim>\<open>list.sort(key = f, reverse = r)\<close> first calls \<open>f\<close> on every element, in order (the first
  exception is raised and nothing is returned), then sorts stably on the keys; with
  \<^verbatim>\<open>reverse\<close> the list is reversed, sorted stably and reversed again.
\<close>

fun key_list :: "('a \<Rightarrow> error + 'k) \<Rightarrow> 'a list \<Rightarrow> error + 'k list" where
  "key_list f [] = Inr []"
| "key_list f (x # xs) =
     (case f x of
        Inl e \<Rightarrow> Inl e
      | Inr k \<Rightarrow> (case key_list f xs of Inl e \<Rightarrow> Inl e | Inr ks \<Rightarrow> Inr (k # ks)))"

definition py_sort :: "('a \<Rightarrow> error + 'k::linorder) \<Rightarrow> bool \<Rightarrow> 'a list \<Rightarrow> error + 'a list" where
  "py_sort f reverse xs =
     (case key_list f xs of
        Inl e \<Rightarrow> Inl e
      | Inr ks \<Rightarrow>
          Inr (map snd (if reverse then rev (sort_key fst (rev (zip ks xs)))
                        else sort_key fst (zip ks xs))))"

definition dict_values :: "gdict \<Rightarrow> group list" where
  "dict_values d = map snd d"

subsection \<open>Utility methods\<close>

definition replace_char :: "char \<Rightarrow> char \<Rightarrow> string \<Rightarrow> string" where
  "replace_char a b s = map (\<lambda>c. if c = a then b else c) s"

definition slugify :: "string \<Rightarrow> string" where
  "slugify s = replace_char (CHR ''/'') (CHR ''_'') (replace_char (CHR '' '') (CHR ''_'') s)"

text \<open>The characters \<^verbatim>\<open>str.strip()\<close> removes, among the code points below 256.\<close>

definition is_space :: "char \<Rightarrow> bool" where
  "is_space c =
     (let n = (of_char c :: nat)
      in (9 \<le> n \<and> n \<le> 13) \<or> (28 \<le> n \<and> n \<le> 32) \<or> n = 133 \<or> n = 160)"

definition strip :: "string \<Rightarrow> string" where
  "strip s = rev (dropWhile is_space (rev (dropWhile is_space s)))"

definition get_date_year :: "eprint \<Rightarrow> string" where
  "get_date_year obj = (case date obj of Some d \<Rightarrow> strip (take 4 d) | None \<Rightarrow> '''')"

definition get_eprint_id :: "eprint \<Rightarrow> string" where
  "get_eprint_id obj = (case eprint_id obj of Some i \<Rightarrow> i | None \<Rightarrow> '''')"

definition get_object_type :: "eprint \<Rightarrow> string" where
  "get_object_type obj = (case otype obj of Some t \<Rightarrow> t | None \<Rightarrow> '''')"

definition has_creator_ids :: "eprint \<Rightarrow> error + bool" where
  "has_creator_ids obj =
     (case creators obj of
        None \<Rightarrow> Inl (KeyError ''creators'')
      | Some cs \<Rightarrow> Inr (list_ex (\<lambda>c. creator_id c \<noteq> None) cs))"

text \<open>\<^verbatim>\<open>s.split(sep)\<close> for a one-character separator, and \<^verbatim>\<open>' '.join(l)\<close>.\<close>

fun split_on :: "char \<Rightarrow> string \<Rightarrow> string list" where
  "split_on sep [] = [[]]"
| "split_on sep (c # cs) =
     (if c = sep then [] # split_on sep cs
      else (case split_on sep cs of
              w # ws \<Rightarrow> (c # w) # ws
            | [] \<Rightarrow> [[c]]))"

fun join :: "string \<Rightarrow> string list \<Rightarrow> string" where
  "join sep [] = []"
| "join sep [w] = w"
| "join sep (w # v # ws) = w @ sep @ join sep (v # ws)"

text \<open>
  \<^verbatim>\<open>str.capitalize()\<close>: the first character in title case, the others in lower case, by
  the case mapping of the code points below 256. The letters are \<^verbatim>\<open>A\<close> to \<^verbatim>\<open>Z\<close> and the
  code points 192 to 222 except 215, with their lower case 32 above. The title case of
  code point 223 (sharp s) is the two characters \<^verbatim>\<open>Ss\<close>. The upper case of the code points
  181 and 255 lies above 255, outside the strings of this model, which leaves the two as
  they are.
\<close>

definition upper_char :: "char \<Rightarrow> char" where
  "upper_char c =
     (let n = (of_char c :: nat)
      in if (97 \<le> n \<and> n \<le> 122) \<or> (224 \<le> n \<and> n \<le> 254 \<and> n \<noteq> 247)
         then char_of (n - 32) else c)"

definition lower_char :: "char \<Rightarrow> char" where
  "lower_char c =
     (let n = (of_char c :: nat)
      in if (65 \<le> n \<and> n \<le> 90) \<or> (192 \<le> n \<and> n \<le> 222 \<and> n \<noteq> 215)
         then char_of (n + 32) else c)"

fun capitalize :: "string \<Rightarrow> string" where
  "capitalize [] = []"
| "capitalize (c # cs) =
     (if of_char c = (223 :: nat) then ''Ss'' else [upper_char c]) @ map lower_char cs"

definition make_label :: "string \<Rightarrow> char \<Rightarrow> string" where
  "make_label s sep = join '' '' (map capitalize (split_on sep s))"

text \<open>
  The sort-key accessors take a group descriptor. \<^verbatim>\<open>get_sort_publication\<close> reads the name
  \<^verbatim>\<open>publication\<close>, which is bound nowhere in the module, once \<^verbatim>\<open>'publication' in o\<close> holds.
\<close>

definition get_sort_name :: "group \<Rightarrow> string" where
  "get_sort_name g = (case map_of (extras g) ''sort_name'' of Some v \<Rightarrow> v | None \<Rightarrow> '''')"

definition get_sort_year :: "group \<Rightarrow> string" where
  "get_sort_year g = (case map_of (extras g) ''year'' of Some v \<Rightarrow> v | None \<Rightarrow> '''')"

definition get_sort_subject :: "group \<Rightarrow> string" where
  "get_sort_subject g = (case map_of (extras g) ''subject_name'' of Some v \<Rightarrow> v | None \<Rightarrow> '''')"

definition get_sort_publication :: "group \<Rightarrow> error + string" where
  "get_sort_publication g =
     (case map_of (extras g) ''publication'' of
        Some v \<Rightarrow> Inl (NameError ''publication'')
      | None \<Rightarrow> Inr '''')"

definition get_sort_collection :: "group \<Rightarrow> string" where
  "get_sort_collection g = (case map_of (extras g) ''collection'' of Some v \<Rightarrow> v | None \<Rightarrow> '''')"

definition get_sort_event :: "group \<Rightarrow> string" where
  "get_sort_event g =
     (case map_of (extras g) ''event_title'' of Some v \<Rightarrow> strip v | None \<Rightarrow> '''')"

definition get_lastmod_date :: "eprint \<Rightarrow> string" where
  "get_lastmod_date obj = (case lastmod obj of Some l \<Rightarrow> take 10 l | None \<Rightarrow> '''')"

definition get_sort_lastmod :: "eprint \<Rightarrow> string" where
  "get_sort_lastmod obj = (case lastmod obj of Some l \<Rightarrow> l | None \<Rightarrow> '''')"

definition get_sort_issn :: "group \<Rightarrow> string" where
  "get_sort_issn g = (case map_of (extras g) ''issn'' of Some v \<Rightarrow> v | None \<Rightarrow> '''')"

subsection \<open>The facets\<close>

definition publication_step :: "gdict \<Rightarrow> eprint \<Rightarrow> gdict" where
  "publication_step publications obj =
     (let year = get_date_year obj
      in case publication obj of
           None \<Rightarrow> publications
         | Some pub \<Rightarrow>
             group_add publications pub
               \<lparr>key = slugify pub, label = pub, count_val = 0,
                extras = [(''year'', year)], objects = []\<rparr> obj)"

definition aggregate_publication :: "eprint list \<Rightarrow> error + group list" where
  "aggregate_publication objs =
     py_sort get_sort_publication False (dict_values (foldl publication_step [] objs))"


definition year_step :: "gdict \<Rightarrow> eprint \<Rightarrow> gdict" where
  "year_step years obj =
     (case date obj of
        None \<Rightarrow> years
      | Some d \<Rightarrow>
          (let year = strip (take 4 d)
           in group_add years year
                \<lparr>key = year, label = year, count_val = 0,
                 extras = [(''year'', year)], objects = []\<rparr> obj))"

definition aggregate_year :: "eprint list \<Rightarrow> error + group list" where
  "aggregate_year objs =
     py_sort (\<lambda>g. Inr (get_sort_year g)) True (dict_values (foldl year_step [] objs))"

definition issn_step :: "gdict \<Rightarrow> eprint \<Rightarrow> gdict" where
  "issn_step issns obj =
     (let year = get_date_year obj
      in case issn obj of
           None \<Rightarrow> issns
         | Some i \<Rightarrow>
             group_add issns i
               \<lparr>key = i, label = i, count_val = 0,
                extras = [(''year'', year)], objects = []\<rparr> obj)"

definition aggregate_issn :: "eprint list \<Rightarrow> error + group list" where
  "aggregate_issn objs =
     py_sort (\<lambda>g. Inr (get_sort_issn g)) False (dict_values (foldl issn_step [] objs))"

definition collection_step :: "gdict \<Rightarrow> eprint \<Rightarrow> gdict" where
  "collection_step collections obj =
     (let year = get_date_year obj
      in case collection obj of
           None \<Rightarrow> collections
         | Some c \<Rightarrow>
             group_add collections c
               \<lparr>key = slugify c, label = c, count_val = 0,
                extras = [(''year'', year)], objects = []\<rparr> obj)"

definition aggregate_collection :: "eprint list \<Rightarrow> error + group list" where
  "aggregate_collection objs =
     py_sort (\<lambda>g. Inr (get_sort_collection g)) False
       (dict_values (foldl collection_step [] objs))"

text \<open>
  The event facet reads \<^verbatim>\<open>event_location\<close> and \<^verbatim>\<open>event_dates\<close> into locals it never
  uses; a record without \<^verbatim>\<open>event_title\<close> goes on with the empty title.
\<close>

definition event_step :: "gdict \<Rightarrow> eprint \<Rightarrow> gdict" where
  "event_step events obj =
     (let year = get_date_year obj;
          title = (case event_title obj of Some t \<Rightarrow> t | None \<Rightarrow> '''')
      in group_add events title
           \<lparr>key = slugify title, label = title, count_val = 0,
            extras = [(''year'', year)], objects = []\<rparr> obj)"

definition aggregate_event :: "eprint list \<Rightarrow> error + group list" where
  "aggregate_event objs =
     py_sort (\<lambda>g. Inr (get_sort_event g)) False (dict_values (foldl event_step [] objs))"

definition ids_step :: "gdict \<Rightarrow> eprint \<Rightarrow> gdict" where
  "ids_step ids obj =
     (let i = get_eprint_id obj
      in group_add ids i
           \<lparr>key = i, label = i, count_val = 0,
            extras = [(''eprint_id'', i)], objects = []\<rparr> obj)"

definition types_step :: "gdict \<Rightarrow> eprint \<Rightarrow> gdict" where
  "types_step types obj =
     (let o_type = get_object_type obj;
          lbl = make_label o_type (CHR ''_'')
      in group_add types o_type
           \<lparr>key = o_type, label = lbl, count_val = 0,
            extras = [(''type'', o_type)], objects = []\<rparr> obj)"

definition aggregate_types :: "eprint list \<Rightarrow> error + group list" where
  "aggregate_types objs =
     py_sort (\<lambda>g. Inr (key g)) False (dict_values (foldl types_step [] objs))"

subsubsection \<open>Loops that can raise\<close>

fun fold_err :: "('s \<Rightarrow> 'a \<Rightarrow> error + 's) \<Rightarrow> 's \<Rightarrow> 'a list \<Rightarrow> error + 's" where
  "fold_err f s [] = Inr s"
| "fold_err f s (x # xs) =
     (case f s x of Inl e \<Rightarrow> Inl e | Inr s' \<Rightarrow> fold_err f s' xs)"

text \<open>
  The people facet subscripts \<^verbatim>\<open>obj['creators']\<close> (in \<^verbatim>\<open>has_creator_ids\<close>),
  \<^verbatim>\<open>creator['id']\<close> and \<^verbatim>\<open>creator['display_name']\<close> with no test that the key is there:
  each raises \<^verbatim>\<open>KeyError\<close> when it is not.
\<close>

definition creator_step :: "eprint \<Rightarrow> gdict \<Rightarrow> creator \<Rightarrow> error + gdict" where
  "creator_step obj people c =
     (case creator_id c of
        None \<Rightarrow> Inl (KeyError ''id'')
      | Some cid \<Rightarrow>
          (case display_name c of
             None \<Rightarrow> Inl (KeyError ''display_name'')
           | Some cname \<Rightarrow>
               Inr (group_add people cid
                      \<lparr>key = cid, label = cname, count_val = 0,
                       extras = [(''people_id'', cid), (''sort_name'', cname)],
                       objects = []\<rparr> obj)))"

definition people_step :: "gdict \<Rightarrow> eprint \<Rightarrow> error + gdict" where
  "people_step people obj =
     (case has_creator_ids obj of
        Inl e \<Rightarrow> Inl e
      | Inr b \<Rightarrow>
          if b then
            (case creators obj of
               None \<Rightarrow> Inl (KeyError ''creators'')
             | Some cs \<Rightarrow> fold_err (creator_step obj) people cs)
          else Inr people)"

definition aggregate_people :: "eprint list \<Rightarrow> error + group list" where
  "aggregate_people objs =
     (case fold_err people_step [] objs of
        Inl e \<Rightarrow> Inl e
      | Inr people \<Rightarrow> py_sort (\<lambda>g. Inr (get_sort_name g)) False (dict_values people))"

definition aggregate_person_az :: "eprint list \<Rightarrow> error + group list" where
  "aggregate_person_az objs = aggregate_people objs"

definition aggregate_person :: "eprint list \<Rightarrow> error + group list" where
  "aggregate_person objs = aggregate_people objs"

definition aggregate_author :: "eprint list \<Rightarrow> error + group list" where
  "aggregate_author objs = aggregate_people objs"

text \<open>
  The subject directory is the argument \<^verbatim>\<open>subject_map\<close>; its one operation
  \<^verbatim>\<open>get_subject\<close> returns the label of a code or \<^verbatim>\<open>None\<close>.
\<close>

definition subj_step ::
  "(string \<Rightarrow> string option) \<Rightarrow> eprint \<Rightarrow> gdict \<Rightarrow> string \<Rightarrow> gdict" where
  "subj_step get_subject obj sd subj =
     (case get_subject subj of
        None \<Rightarrow> sd
      | Some subject_name \<Rightarrow>
          group_add sd subj
            \<lparr>key = subj, label = subject_name, count_val = 0,
             extras = [(''subject_id'', subj), (''subject_name'', subject_name)],
             objects = []\<rparr> obj)"

definition subjects_step ::
  "(string \<Rightarrow> string option) \<Rightarrow> gdict \<Rightarrow> eprint \<Rightarrow> error + gdict" where
  "subjects_step get_subject sd obj =
     (case subjects obj of
        None \<Rightarrow> Inr sd
      | Some s \<Rightarrow>
          (case s of
             None \<Rightarrow> Inl (KeyError ''items'')
           | Some its \<Rightarrow> Inr (foldl (subj_step get_subject obj) sd its)))"

definition aggregate_subjects ::
  "eprint list \<Rightarrow> (string \<Rightarrow> string option) \<Rightarrow> error + group list" where
  "aggregate_subjects objs get_subject =
     (case fold_err (subjects_step get_subject) [] objs of
        Inl e \<Rightarrow> Inl e
      | Inr sd \<Rightarrow> py_sort (\<lambda>g. Inr (get_sort_subject g)) False (dict_values sd))"

subsubsection \<open>The identifier facet and the conversion to an integer\<close>

text \<open>
  \<^verbatim>\<open>int(s)\<close> on a string: surrounding white space is dropped (tab to carriage return,
  space, and the two white-space code points between 128 and 255), then an optional sign,
  then decimal digits in which single underscores may separate digits. Anything else is
  \<^verbatim>\<open>ValueError\<close>. The interpreter's limit on the number of digits is left out.
\<close>

definition is_int_space :: "char \<Rightarrow> bool" where
  "is_int_space c =
     (let n = (of_char c :: nat)
      in (9 \<le> n \<and> n \<le> 13) \<or> n = 32 \<or> n = 133 \<or> n = 160)"

definition is_digit :: "char \<Rightarrow> bool" where
  "is_digit c = (CHR ''0'' \<le> c \<and> c \<le> CHR ''9'')"

definition digit_val :: "char \<Rightarrow> nat" where
  "digit_val c = of_char c - 48"

fun digits_value :: "nat \<Rightarrow> string \<Rightarrow> nat option" where
  "digits_value acc [] = Some acc"
| "digits_value acc [c] = (if is_digit c then Some (10 * acc + digit_val c) else None)"
| "digits_value acc (c # d # ds) =
     (if is_digit c then digits_value (10 * acc + digit_val c) (d # ds)
      else if c = CHR ''_'' \<and> is_digit d then digits_value (10 * acc + digit_val d) ds
      else None)"

definition py_int :: "string \<Rightarrow> int option" where
  "py_int s =
     (let t = rev (dropWhile is_int_space (rev (dropWhile is_int_space s)));
          neg = (case t of c # cs \<Rightarrow> c = CHR ''-'' | [] \<Rightarrow> False);
          body = (case t of c # cs \<Rightarrow> if c = CHR ''-'' \<or> c = CHR ''+'' then cs else t | [] \<Rightarrow> t)
      in case body of
           [] \<Rightarrow> None
         | c # cs \<Rightarrow>
             if is_digit c then
               (case digits_value (digit_val c) cs of
                  None \<Rightarrow> None
                | Some n \<Rightarrow> Some (if neg then - int n else int n))
             else None)"

definition int_key :: "group \<Rightarrow> error + int" where
  "int_key g = (case py_int (key g) of None \<Rightarrow> Inl (ValueError (key g)) | Some n \<Rightarrow> Inr n)"

definition aggregate_ids :: "eprint list \<Rightarrow> error + group list" where
  "aggregate_ids objs = py_sort int_key False (dict_values (foldl ids_step [] objs))"

subsubsection \<open>The latest facet and the calendar\<close>

text \<open>
  \<^verbatim>\<open>date.today()\<close> is the argument \<open>today\<close>, a calendar date of the years 1 to 9999.
  \<^verbatim>\<open>today - td\<close> moves \<open>today\<close> by \<open>- td\<close> days and raises \<^verbatim>\<open>OverflowError\<close> outside
  those years; \<^verbatim>\<open>isoformat()\<close> prints \<^verbatim>\<open>YYYY-MM-DD\<close>.
\<close>

record pydate =
  d_year :: nat
  d_month :: nat
  d_day :: nat

definition is_leap :: "nat \<Rightarrow> bool" where
  "is_leap y = (y mod 4 = 0 \<and> (y mod 100 \<noteq> 0 \<or> y mod 400 = 0))"

definition days_in_month :: "nat \<Rightarrow> nat \<Rightarrow> nat" where
  "days_in_month y m =
     (if m = 2 then (if is_leap y then 29 else 28)
      else if m = 4 \<or> m = 6 \<or> m = 9 \<or> m = 11 then 30 else 31)"

definition next_day :: "pydate \<Rightarrow> pydate" where
  "next_day d =
     (if d_day d < days_in_month (d_year d) (d_month d) then d\<lparr>d_day := d_day d + 1\<rparr>
      else if d_month d < 12 then d\<lparr>d_month := d_month d + 1, d_day := 1\<rparr>
      else \<lparr>d_year = d_year d + 1, d_month = 1, d_day = 1\<rparr>)"

definition prev_day :: "pydate \<Rightarrow> pydate" where
  "prev_day d =
     (if 1 < d_day d then d\<lparr>d_day := d_day d - 1\<rparr>
      else if 1 < d_month d then
        d\<lparr>d_month := d_month d - 1, d_day := days_in_month (d_year d) (d_month d - 1)\<rparr>
      else \<lparr>d_year = d_year d - 1, d_month = 12, d_day = 31\<rparr>)"

definition date_add :: "pydate \<Rightarrow> int \<Rightarrow> error + pydate" where
  "date_add d n =
     (let r = (if 0 \<le> n then (next_day ^^ nat n) d else (prev_day ^^ nat (- n)) d)
      in if 1 \<le> d_year r \<and> d_year r \<le> 9999 then Inr r else Inl OverflowError)"

definition date_sub :: "pydate \<Rightarrow> int \<Rightarrow> error + pydate" where
  "date_sub d td = date_add d (- td)"

definition digit_char :: "nat \<Rightarrow> char" where
  "digit_char n = ''0123456789'' ! (n mod 10)"

definition isoformat :: "pydate \<Rightarrow> string" where
  "isoformat d =
     [digit_char (d_year d div 1000), digit_char (d_year d div 100),
      digit_char (d_year d div 10), digit_char (d_year d)] @ ''-'' @
     [digit_char (d_month d div 10), digit_char (d_month d)] @ ''-'' @
     [digit_char (d_day d div 10), digit_char (d_day d)]"

definition seven_days_ago :: "pydate \<Rightarrow> error + string" where
  "seven_days_ago today =
     (let td = (- 7 :: int)
      in case date_sub today td of Inl e \<Rightarrow> Inl e | Inr d \<Rightarrow> Inr (isoformat d))"

text \<open>
  In the loop of \<^verbatim>\<open>aggregate_latest\<close> the new descriptor is assigned to
  \<^verbatim>\<open>lastest[lastmod]\<close>, and no name \<^verbatim>\<open>lastest\<close> is bound anywhere: the statement raises
  \<^verbatim>\<open>NameError\<close>. The two statements after it subscript \<^verbatim>\<open>latest[lastmod]\<close>.
\<close>

definition window_test :: "string \<Rightarrow> eprint \<Rightarrow> bool" where
  "window_test threshold obj =
     (get_lastmod_date obj \<noteq> '''' \<and> get_lastmod_date obj \<ge> threshold)"

definition latest_step :: "string \<Rightarrow> gdict \<Rightarrow> eprint \<Rightarrow> error + gdict" where
  "latest_step threshold latest obj =
     (let lm = get_lastmod_date obj
      in if window_test threshold obj then
           (let k = get_sort_lastmod obj; year = get_date_year obj
            in if \<not> dict_has latest k then Inl (NameError ''lastest'')
               else if \<not> dict_has latest lm then Inl (KeyError lm)
               else Inr (map (\<lambda>(k', g). if k' = lm then (k', bump obj g) else (k', g)) latest))
         else Inr latest)"

definition aggregate_latest :: "pydate \<Rightarrow> eprint list \<Rightarrow> error + group list" where
  "aggregate_latest today objs =
     (case seven_days_ago today of
        Inl e \<Rightarrow> Inl e
      | Inr threshold \<Rightarrow>
          (case fold_err (latest_step threshold) [] objs of
             Inl e \<Rightarrow> Inl e
           | Inr latest \<Rightarrow> py_sort (\<lambda>g. Inr (key g)) True (dict_values latest)))"

subsection \<open>All facet operations\<close>

text \<open>
  The facet operations of the class, as one function of the operation's name and of
  everything an operation can read: the records, the subject directory and the date of
  the call.
\<close>

datatype facet =
    People | Person_az | Person | Author | Year | Publication | Issn | Collection
  | Event | Subjects | Ids | Types | Latest

fun run_facet ::
  "facet \<Rightarrow> pydate \<Rightarrow> (string \<Rightarrow> string option) \<Rightarrow> eprint list \<Rightarrow> error + group list" where
  "run_facet People today sm objs = aggregate_people objs"
| "run_facet Person_az today sm objs = aggregate_person_az objs"
| "run_facet Person today sm objs = aggregate_person objs"
| "run_facet Author today sm objs = aggregate_author objs"
| "run_facet Year today sm objs = aggregate_year objs"
| "run_facet Publication today sm objs = aggregate_publication objs"
| "run_facet Issn today sm objs = aggregate_issn objs"
| "run_facet Collection today sm objs = aggregate_collection objs"
| "run_facet Event today sm objs = aggregate_event objs"
| "run_facet Subjects today sm objs = aggregate_subjects objs sm"
| "run_facet Ids today sm objs = aggregate_ids objs"
| "run_facet Types today sm objs = aggregate_types objs"
| "run_facet Latest today sm objs = aggregate_latest today objs"

text \<open>The record with no field at all, \<^verbatim>\<open>{}\<close>, from which the examples are built.\<close>

definition no_fields :: eprint where
  "no_fields =
     \<lparr>date = None, eprint_id = None, otype = None, creators = None, publication = None,
      issn = None, collection = None, event_title = None, event_location = None,
      event_dates = None, lastmod = None, subjects = None\<rparr>"

subsection \<open>Invariants of the scans\<close>

text \<open>
  What holds of the accumulator of a facet after the records \<open>seen\<close>. In \<open>dict_inv\<close>: the
  dictionary keys are distinct, every descriptor carries the key \<open>keyf k\<close> for its dictionary
  key \<open>k\<close>, and its count is the number of its objects. In \<open>facet_inv\<close>, for a facet that
  puts a record under the one key \<open>kf r\<close> (or skips it when \<open>kf r\<close> is \<open>None\<close>): moreover the
  dictionary keys are the keys of the records seen, and the objects of a group are the
  records seen that have its key, in the order of the scan.
\<close>

definition dict_inv :: "(string \<Rightarrow> string) \<Rightarrow> gdict \<Rightarrow> bool" where
  "dict_inv keyf d =
     (distinct (map fst d) \<and>
      list_all (\<lambda>(k, g). key g = keyf k \<and> count_val g = int (length (objects g))) d)"

definition facet_inv ::
  "(eprint \<Rightarrow> string option) \<Rightarrow> (string \<Rightarrow> string) \<Rightarrow> (string \<Rightarrow> string) \<Rightarrow>
   eprint list \<Rightarrow> gdict \<Rightarrow> bool" where
  "facet_inv kf keyf labf seen d =
     (distinct (map fst d) \<and>
      set (map fst d) = set (List.map_filter kf seen) \<and>
      list_all (\<lambda>(k, g). key g = keyf k \<and> label g = labf k \<and>
                 objects g = filter (\<lambda>r. kf r = Some k) seen \<and>
                 count_val g = int (length (objects g))) d)"

text \<open>The key under which each single-valued facet files a record; \<open>None\<close> when it skips it.\<close>

definition year_of :: "eprint \<Rightarrow> string option" where
  "year_of obj = map_option (\<lambda>d. strip (take 4 d)) (date obj)"

definition event_of :: "eprint \<Rightarrow> string option" where
  "event_of obj = Some (case event_title obj of Some t \<Rightarrow> t | None \<Rightarrow> '''')"

definition id_of :: "eprint \<Rightarrow> string option" where
  "id_of obj = Some (get_eprint_id obj)"

definition type_of :: "eprint \<Rightarrow> string option" where
  "type_of obj = Some (get_object_type obj)"

text \<open>The number of groups of a result that hold the record \<open>r\<close>.\<close>

definition groups_with :: "eprint \<Rightarrow> group list \<Rightarrow> nat" where
  "groups_with r gs = length (filter (\<lambda>g. r \<in> set (objects g)) gs)"

subsection \<open>Example inputs\<close>

definition ex_ids :: "eprint list" where
  "ex_ids = [no_fields\<lparr>eprint_id := Some ''10''\<rparr>, no_fields\<lparr>eprint_id := Some ''2''\<rparr>,
             no_fields\<lparr>eprint_id := Some ''33''\<rparr>]"

definition jan12 :: pydate where
  "jan12 = \<lparr>d_year = 2024, d_month = 1, d_day = 12\<rparr>"


section \<open>Properties\<close>

subsection \<open>Sorting\<close>

lemma key_list_total: "key_list (\<lambda>x. Inr (h x)) xs = Inr (map h xs)"
  by (induction xs) simp_all

lemma key_list_Inr_map: "key_list f xs = Inr ks \<Longrightarrow> map f xs = map Inr ks"
  by (induction xs arbitrary: ks) (auto split: sum.splits)

lemma key_list_Inr_length: "key_list f xs = Inr ks \<Longrightarrow> length ks = length xs"
  by (induction xs arbitrary: ks) (auto split: sum.splits)

lemma key_list_Inl_iff: "(\<exists>e. key_list f xs = Inl e) \<longleftrightarrow> (\<exists>x\<in>set xs. \<exists>e. f x = Inl e)"
  by (induction xs) (auto split: sum.splits)

lemma py_sort_Inl_iff: "(\<exists>e. py_sort f r xs = Inl e) \<longleftrightarrow> (\<exists>x\<in>set xs. \<exists>e. f x = Inl e)"
  using key_list_Inl_iff [of f xs] by (auto simp: py_sort_def split: sum.splits)

text \<open>Sorting returns the same groups, each as often as before.\<close>

lemma py_sort_mset: "py_sort f r xs = Inr ys \<Longrightarrow> mset ys = mset xs"
proof -
  assume a: "py_sort f r xs = Inr ys"
  then obtain ks where ks: "key_list f xs = Inr ks"
    by (auto simp: py_sort_def split: sum.splits)
  have len: "length ks = length xs" using ks by (rule key_list_Inr_length)
  have e: "map snd (zip ks xs) = xs" using len by simp
  have "mset ys = image_mset snd (mset (zip ks xs))"
    using a ks by (auto simp: py_sort_def)
  also have "\<dots> = mset (map snd (zip ks xs))" by simp
  finally show ?thesis by (simp only: e)
qed

lemma sort_key_zip: "sort_key fst (zip (map h xs) xs) = map (\<lambda>x. (h x, x)) (sort_key h xs)"
proof -
  have ins: "\<And>x ys. insort_key fst (h x, x) (map (\<lambda>x. (h x, x)) ys)
                    = map (\<lambda>x. (h x, x)) (insort_key h x ys)"
    subgoal for x ys by (induction ys) simp_all
    done
  show ?thesis by (induction xs) (simp_all add: ins)
qed

text \<open>With a key function that cannot raise, the decorated sort is the plain stable sort.\<close>

lemma py_sort_total:
  "py_sort (\<lambda>x. Inr (h x)) r xs = Inr (if r then rev (sort_key h (rev xs)) else sort_key h xs)"
proof -
  have "rev (zip (map h xs) xs) = zip (map h (rev xs)) (rev xs)"
    by (simp add: zip_rev [symmetric] rev_map)
  then show ?thesis
    by (simp add: py_sort_def key_list_total sort_key_zip rev_map comp_def)
qed

lemma sort_key_const: "sort_key (\<lambda>x. c) xs = xs"
  by (induction xs) (simp_all add: insort_is_Cons)

lemma py_sort_sorted:
  assumes "py_sort f False xs = Inr ys"
  shows "sorted (map (\<lambda>y. projr (f y)) ys)"
proof -
  obtain ks where ks: "key_list f xs = Inr ks"
    using assms by (auto simp: py_sort_def split: sum.splits)
  have ks_eq: "ks = map (\<lambda>x. projr (f x)) xs"
  proof -
    have "map projr (map f xs) = map projr (map Inr ks)"
      using key_list_Inr_map [OF ks] by simp
    then show ?thesis by (simp add: comp_def)
  qed
  have "ys = map snd (sort_key fst (zip ks xs))"
    using assms ks by (simp add: py_sort_def)
  then have "ys = sort_key (\<lambda>x. projr (f x)) xs"
    by (simp add: ks_eq sort_key_zip comp_def)
  then show ?thesis by (simp add: sorted_sort_key)
qed

subsection \<open>Grouping\<close>

lemma dict_has_iff: "dict_has d k \<longleftrightarrow> k \<in> set (map fst d)"
  by (simp add: dict_has_def map_of_eq_None_iff)

lemma bump_simps [simp]:
  "key (bump obj g) = key g" "label (bump obj g) = label g"
  "count_val (bump obj g) = count_val g + 1" "objects (bump obj g) = objects g @ [obj]"
  "extras (bump obj g) = extras g"
  by (simp_all add: bump_def)

lemma group_add_new:
  assumes "\<not> dict_has d k"
  shows "group_add d k fresh obj = d @ [(k, bump obj fresh)]"
proof -
  have "map (\<lambda>(k', g). if k' = k then (k', bump obj g) else (k', g)) d = d"
    using assms by (intro map_idI) (force simp: dict_has_iff)
  then show ?thesis using assms by (simp add: group_add_def)
qed

lemma group_add_old:
  assumes "dict_has d k"
  shows "group_add d k fresh obj = map (\<lambda>(k', g). if k' = k then (k', bump obj g) else (k', g)) d"
  using assms by (simp add: group_add_def)

lemma group_add_keys:
  "map fst (group_add d k fresh obj) = (if dict_has d k then map fst d else map fst d @ [k])"
proof -
  have "map fst (map (\<lambda>(k', g). if k' = k then (k', bump obj g) else (k', g)) d) = map fst d" for d :: gdict
    by (induction d) auto
  then show ?thesis
    by (cases "dict_has d k") (simp_all add: group_add_new group_add_old)
qed

lemma map_filter_set: "set (List.map_filter f xs) = {k. \<exists>x\<in>set xs. f x = Some k}"
  by (induction xs) (auto split: option.splits)

lemma facet_inv_skip:
  assumes "facet_inv kf keyf labf seen d" "kf obj = None"
  shows "facet_inv kf keyf labf (seen @ [obj]) d"
  using assms by (auto simp: facet_inv_def map_filter_set list_all_iff)

lemma facet_inv_add:
  assumes inv: "facet_inv kf keyf labf seen d" and k: "kf obj = Some k"
    and fresh: "key fresh = keyf k" "label fresh = labf k" "count_val fresh = 0" "objects fresh = []"
  shows "facet_inv kf keyf labf (seen @ [obj]) (group_add d k fresh obj)"
proof -
  let ?P = "\<lambda>sn (k', g). key g = keyf k' \<and> label g = labf k' \<and>
                 objects g = filter (\<lambda>r. kf r = Some k') sn \<and>
                 count_val g = int (length (objects g))"
  have dist: "distinct (map fst d)"
    and keys: "set (map fst d) = set (List.map_filter kf seen)"
    and ent: "\<And>k' g. (k', g) \<in> set d \<Longrightarrow> ?P seen (k', g)"
    using inv by (auto simp: facet_inv_def list_all_iff)
  have keys': "set (map fst (group_add d k fresh obj)) = set (List.map_filter kf (seen @ [obj]))"
    using keys k by (auto simp: group_add_keys dict_has_iff map_filter_set)
  have dist': "distinct (map fst (group_add d k fresh obj))"
    using dist by (simp add: group_add_keys dict_has_iff)
  have other: "?P (seen @ [obj]) (k', g)" if "(k', g) \<in> set d" "k' \<noteq> k" for k' g
    using ent [OF that(1)] that(2) k by simp
  have same: "?P (seen @ [obj]) (k, bump obj g)" if "?P seen (k, g)" for g
    using that k by simp
  have ent': "?P (seen @ [obj]) e" if e: "e \<in> set (group_add d k fresh obj)" for e
  proof (cases "dict_has d k")
    case False
    then have nk: "k \<notin> set (map fst d)" by (simp add: dict_has_iff)
    then have none: "filter (\<lambda>r. kf r = Some k) seen = []"
      using keys by (auto simp: map_filter_set filter_empty_conv)
    have "?P seen (k, fresh)" using fresh none by simp
    then have new: "?P (seen @ [obj]) (k, bump obj fresh)" by (rule same)
    from e have "e \<in> set d \<or> e = (k, bump obj fresh)"
      by (auto simp: group_add_new [OF False])
    then show ?thesis
    proof
      assume ed: "e \<in> set d"
      obtain k' g where eq: "e = (k', g)" by (cases e)
      have "k' \<noteq> k" using ed eq nk by force
      then show ?thesis unfolding eq using ed eq by (intro other) simp_all
    next
      assume eq: "e = (k, bump obj fresh)"
      show ?thesis unfolding eq by (rule new)
    qed
  next
    case True
    from e obtain k' g where kg: "(k', g) \<in> set d"
      and eq: "e = (if k' = k then (k', bump obj g) else (k', g))"
      by (auto simp: group_add_old [OF True])
    show ?thesis
    proof (cases "k' = k")
      case True
      then have eq': "e = (k, bump obj g)" and kg': "(k, g) \<in> set d" using eq kg by simp_all
      show ?thesis unfolding eq' by (rule same) (rule ent [OF kg'])
    next
      case False
      then have eq': "e = (k', g)" using eq by simp
      show ?thesis unfolding eq' by (rule other [OF kg False])
    qed
  qed
  show ?thesis
    unfolding facet_inv_def list_all_iff
    using dist' keys' ent' by blast
qed

lemma facet_inv_empty: "facet_inv kf keyf labf [] []"
  by (simp add: facet_inv_def List.map_filter_simps)

lemma facet_inv_foldl:
  assumes step: "\<And>d obj. step d obj =
      (case kf obj of None \<Rightarrow> d
       | Some k \<Rightarrow> group_add d k \<lparr>key = keyf k, label = labf k, count_val = 0,
                                  extras = ex k obj, objects = []\<rparr> obj)"
    and inv: "facet_inv kf keyf labf seen d"
  shows "facet_inv kf keyf labf (seen @ objs) (foldl step d objs)"
  using inv
proof (induction objs arbitrary: seen d)
  case Nil
  then show ?case by simp
next
  case (Cons obj objs)
  have "facet_inv kf keyf labf (seen @ [obj]) (step d obj)"
  proof (cases "kf obj")
    case None
    then show ?thesis using Cons.prems by (simp add: step facet_inv_skip)
  next
    case (Some k)
    then show ?thesis using Cons.prems by (simp add: step facet_inv_add)
  qed
  from Cons.IH [OF this] show ?case by simp
qed

subsection \<open>What the invariant says of a result\<close>

lemma groups_with_mset: "mset gs = mset gs' \<Longrightarrow> groups_with r gs = groups_with r gs'"
proof -
  assume a: "mset gs = mset gs'"
  have "\<And>xs. groups_with r xs = size (filter_mset (\<lambda>g. r \<in> set (objects g)) (mset xs))"
    by (simp add: groups_with_def flip: mset_filter)
  then show ?thesis using a by simp
qed

lemma sum_count_mset:
  "mset gs = mset gs' \<Longrightarrow> sum_list (map count_val gs) = sum_list (map count_val gs')"
proof -
  assume a: "mset gs = mset gs'"
  then have "mset (map count_val gs) = mset (map count_val gs')" by simp
  then have "sum_mset (mset (map count_val gs)) = sum_mset (mset (map count_val gs'))"
    by (rule arg_cong)
  then show ?thesis by (simp only: sum_mset_sum_list)
qed

lemma distinct_map_mset: "mset gs = mset gs' \<Longrightarrow> distinct (map f gs) = distinct (map f gs')"
proof -
  assume "mset gs = mset gs'"
  then have "mset (map f gs) = mset (map f gs')" by simp
  then show ?thesis by (rule mset_eq_imp_distinct_iff)
qed

lemma facet_inv_entry:
  assumes "facet_inv kf keyf labf seen d" "(k, g) \<in> set d"
  shows "key g = keyf k" "label g = labf k" "objects g = filter (\<lambda>r. kf r = Some k) seen"
    "count_val g = int (length (objects g))"
  using assms by (auto simp: facet_inv_def list_all_iff)

lemma facet_inv_keys:
  assumes "facet_inv kf keyf labf seen d"
  shows "distinct (map fst d)" "set (map fst d) = {k. \<exists>r\<in>set seen. kf r = Some k}"
  using assms by (auto simp: facet_inv_def map_filter_set)

lemma facet_inv_map_key:
  assumes "facet_inv kf keyf labf seen d"
  shows "map key (dict_values d) = map keyf (map fst d)"
    and "map label (dict_values d) = map labf (map fst d)"
  using facet_inv_entry(1,2) [OF assms] by (auto simp: dict_values_def)

lemma facet_inv_member:
  assumes inv: "facet_inv kf keyf labf seen d" and r: "r \<in> set seen" "kf r = Some k"
  shows "\<exists>g\<in>set (dict_values d). key g = keyf k \<and> label g = labf k \<and> r \<in> set (objects g)"
proof -
  have "k \<in> set (map fst d)" using facet_inv_keys(2) [OF inv] r by blast
  then obtain g where kg: "(k, g) \<in> set d" by auto
  have "r \<in> set (objects g)" using facet_inv_entry(3) [OF inv kg] r by simp
  moreover have "g \<in> set (dict_values d)" using kg by (force simp: dict_values_def)
  ultimately show ?thesis using facet_inv_entry(1,2) [OF inv kg] by blast
qed

lemma length_filter_eq_distinct:
  "distinct xs \<Longrightarrow> length (filter (\<lambda>y. y = x) xs) = (if x \<in> set xs then 1 else 0)"
  by (induction xs) auto

lemma facet_inv_groups_with:
  assumes inv: "facet_inv kf keyf labf seen d" and r: "r \<in> set seen"
  shows "groups_with r (dict_values d) = (if kf r = None then 0 else 1)"
proof -
  have mem: "r \<in> set (objects (snd e)) \<longleftrightarrow> kf r = Some (fst e)" if "e \<in> set d" for e
  proof -
    obtain k g where e: "e = (k, g)" by (cases e)
    show ?thesis using facet_inv_entry(3) [OF inv that [unfolded e]] r by (simp add: e)
  qed
  have "groups_with r (dict_values d) = length (filter (\<lambda>e. r \<in> set (objects (snd e))) d)"
    by (simp add: groups_with_def dict_values_def filter_map comp_def)
  also have "filter (\<lambda>e. r \<in> set (objects (snd e))) d = filter (\<lambda>e. kf r = Some (fst e)) d"
    by (rule filter_cong) (simp_all add: mem)
  finally have gw: "groups_with r (dict_values d) = length (filter (\<lambda>e. kf r = Some (fst e)) d)" .
  show ?thesis
  proof (cases "kf r")
    case None
    then show ?thesis using gw by simp
  next
    case (Some k)
    have "k \<in> set (map fst d)" using facet_inv_keys(2) [OF inv] r Some by blast
    moreover have "length (filter (\<lambda>e. kf r = Some (fst e)) d) = length (filter (\<lambda>y. y = k) (map fst d))"
      by (simp add: Some filter_map comp_def eq_commute)
    ultimately show ?thesis
      using gw Some length_filter_eq_distinct [OF facet_inv_keys(1) [OF inv], of k] by simp
  qed
qed

lemma sum_indicator_distinct:
  "distinct ks \<Longrightarrow> (\<Sum>k\<leftarrow>ks. if x = k then 1 else 0 :: nat) = (if x \<in> set ks then 1 else 0)"
  by (induction ks) auto

lemma sum_filter_lengths:
  assumes "distinct ks" "{k. \<exists>r\<in>set objs. kf r = Some k} \<subseteq> set ks"
  shows "(\<Sum>k\<leftarrow>ks. length (filter (\<lambda>r. kf r = Some k) objs)) = length (filter (\<lambda>r. kf r \<noteq> None) objs)"
  using assms(2)
proof (induction objs)
  case Nil
  then show ?case by simp
next
  case (Cons r rs)
  have split: "(\<Sum>k\<leftarrow>ks. length (filter (\<lambda>r. kf r = Some k) (r # rs)))
      = (\<Sum>k\<leftarrow>ks. if kf r = Some k then 1 else 0) + (\<Sum>k\<leftarrow>ks. length (filter (\<lambda>r. kf r = Some k) rs))"
  proof -
    have "map (\<lambda>k. length (filter (\<lambda>r. kf r = Some k) (r # rs))) ks
        = map (\<lambda>k. (if kf r = Some k then 1 else 0) + length (filter (\<lambda>r. kf r = Some k) rs)) ks"
      by simp
    then show ?thesis by (simp only: sum_list_addf)
  qed
  have ind: "(\<Sum>k\<leftarrow>ks. if kf r = Some k then 1 else 0 :: nat) = (if kf r \<noteq> None then 1 else 0)"
  proof (cases "kf r")
    case None
    then show ?thesis by simp
  next
    case (Some k)
    then have "k \<in> set ks" using Cons.prems by auto
    then show ?thesis using Some by (simp add: sum_indicator_distinct [OF assms(1)])
  qed
  have "(\<Sum>k\<leftarrow>ks. length (filter (\<lambda>r. kf r = Some k) rs)) = length (filter (\<lambda>r. kf r \<noteq> None) rs)"
    using Cons.prems by (intro Cons.IH) auto
  then show ?case using split ind by simp
qed

lemma facet_inv_sum:
  assumes inv: "facet_inv kf keyf labf seen d"
  shows "sum_list (map count_val (dict_values d)) = int (length (filter (\<lambda>r. kf r \<noteq> None) seen))"
proof -
  have "map count_val (dict_values d) = map (\<lambda>k. int (length (filter (\<lambda>r. kf r = Some k) seen))) (map fst d)"
    using facet_inv_entry(3,4) [OF inv] by (auto simp: dict_values_def)
  then have "sum_list (map count_val (dict_values d)) = int (\<Sum>k\<leftarrow>map fst d. length (filter (\<lambda>r. kf r = Some k) seen))"
    by (simp add: comp_def sum_list_of_nat [symmetric])
  then show ?thesis
    using sum_filter_lengths [OF facet_inv_keys(1) [OF inv], of seen kf] facet_inv_keys(2) [OF inv]
    by simp
qed

subsection \<open>The single-valued facets\<close>

lemma year_inv: "facet_inv year_of (\<lambda>k. k) (\<lambda>k. k) objs (foldl year_step [] objs)"
proof -
  have "year_step d obj =
      (case year_of obj of None \<Rightarrow> d
       | Some k \<Rightarrow> group_add d k \<lparr>key = k, label = k, count_val = 0,
                                  extras = [(''year'', k)], objects = []\<rparr> obj)" for d obj
    by (simp add: year_step_def year_of_def Let_def split: option.splits)
  from facet_inv_foldl [where keyf = "\<lambda>k. k" and labf = "\<lambda>k. k" and ex = "\<lambda>k obj. [(''year'', k)]",
      OF this facet_inv_empty, of objs]
  show ?thesis by simp
qed

lemma publication_inv: "facet_inv publication slugify (\<lambda>k. k) objs (foldl publication_step [] objs)"
proof -
  have "publication_step d obj =
      (case publication obj of None \<Rightarrow> d
       | Some k \<Rightarrow> group_add d k \<lparr>key = slugify k, label = k, count_val = 0,
                                  extras = [(''year'', get_date_year obj)], objects = []\<rparr> obj)" for d obj
    by (simp add: publication_step_def split: option.splits)
  from facet_inv_foldl [where keyf = slugify and labf = "\<lambda>k. k"
      and ex = "\<lambda>k obj. [(''year'', get_date_year obj)]", OF this facet_inv_empty, of objs]
  show ?thesis by simp
qed

lemma issn_inv: "facet_inv issn (\<lambda>k. k) (\<lambda>k. k) objs (foldl issn_step [] objs)"
proof -
  have "issn_step d obj =
      (case issn obj of None \<Rightarrow> d
       | Some k \<Rightarrow> group_add d k \<lparr>key = k, label = k, count_val = 0,
                                  extras = [(''year'', get_date_year obj)], objects = []\<rparr> obj)" for d obj
    by (simp add: issn_step_def split: option.splits)
  from facet_inv_foldl [where keyf = "\<lambda>k. k" and labf = "\<lambda>k. k"
      and ex = "\<lambda>k obj. [(''year'', get_date_year obj)]", OF this facet_inv_empty, of objs]
  show ?thesis by simp
qed

lemma collection_inv: "facet_inv collection slugify (\<lambda>k. k) objs (foldl collection_step [] objs)"
proof -
  have "collection_step d obj =
      (case collection obj of None \<Rightarrow> d
       | Some k \<Rightarrow> group_add d k \<lparr>key = slugify k, label = k, count_val = 0,
                                  extras = [(''year'', get_date_year obj)], objects = []\<rparr> obj)" for d obj
    by (simp add: collection_step_def split: option.splits)
  from facet_inv_foldl [where keyf = slugify and labf = "\<lambda>k. k"
      and ex = "\<lambda>k obj. [(''year'', get_date_year obj)]", OF this facet_inv_empty, of objs]
  show ?thesis by simp
qed

lemma event_inv: "facet_inv event_of slugify (\<lambda>k. k) objs (foldl event_step [] objs)"
proof -
  have "event_step d obj =
      (case event_of obj of None \<Rightarrow> d
       | Some k \<Rightarrow> group_add d k \<lparr>key = slugify k, label = k, count_val = 0,
                                  extras = [(''year'', get_date_year obj)], objects = []\<rparr> obj)" for d obj
    by (simp add: event_step_def event_of_def Let_def)
  from facet_inv_foldl [where keyf = slugify and labf = "\<lambda>k. k"
      and ex = "\<lambda>k obj. [(''year'', get_date_year obj)]", OF this facet_inv_empty, of objs]
  show ?thesis by simp
qed

lemma ids_inv: "facet_inv id_of (\<lambda>k. k) (\<lambda>k. k) objs (foldl ids_step [] objs)"
proof -
  have "ids_step d obj =
      (case id_of obj of None \<Rightarrow> d
       | Some k \<Rightarrow> group_add d k \<lparr>key = k, label = k, count_val = 0,
                                  extras = [(''eprint_id'', k)], objects = []\<rparr> obj)" for d obj
    by (simp add: ids_step_def id_of_def Let_def)
  from facet_inv_foldl [where keyf = "\<lambda>k. k" and labf = "\<lambda>k. k"
      and ex = "\<lambda>k obj. [(''eprint_id'', k)]", OF this facet_inv_empty, of objs]
  show ?thesis by simp
qed

lemma types_inv:
  "facet_inv type_of (\<lambda>k. k) (\<lambda>k. make_label k (CHR ''_'')) objs (foldl types_step [] objs)"
proof -
  have "types_step d obj =
      (case type_of obj of None \<Rightarrow> d
       | Some k \<Rightarrow> group_add d k \<lparr>key = k, label = make_label k (CHR ''_''), count_val = 0,
                                  extras = [(''type'', k)], objects = []\<rparr> obj)" for d obj
    by (simp add: types_step_def type_of_def Let_def)
  from facet_inv_foldl [where keyf = "\<lambda>k. k" and labf = "\<lambda>k. make_label k (CHR ''_'')"
      and ex = "\<lambda>k obj. [(''type'', k)]", OF this facet_inv_empty, of objs]
  show ?thesis by simp
qed

text \<open>The result of a single-valued facet whose sort key cannot raise.\<close>

lemma facet_result:
  assumes inv: "facet_inv kf keyf labf objs d"
    and res: "py_sort f rv (dict_values d) = Inr gs"
  shows "\<forall>g\<in>set gs. count_val g = int (length (objects g))"
    and "inj keyf \<Longrightarrow> distinct (map key gs)"
    and "inj labf \<Longrightarrow> distinct (map label gs)"
    and "\<forall>g\<in>set gs. \<exists>k. key g = keyf k \<and> label g = labf k"
    and "\<forall>r\<in>set objs. groups_with r gs = (if kf r = None then 0 else 1)"
    and "\<forall>r\<in>set objs. \<forall>k. kf r = Some k \<longrightarrow>
           (\<exists>g\<in>set gs. key g = keyf k \<and> label g = labf k \<and> r \<in> set (objects g))"
    and "sum_list (map count_val gs) = int (length (filter (\<lambda>r. kf r \<noteq> None) objs))"
proof -
  have ms: "mset gs = mset (dict_values d)" using res by (rule py_sort_mset)
  then have st: "set gs = set (dict_values d)" by (rule mset_eq_setD)
  have ent: "\<exists>k. (k, g) \<in> set d" if "g \<in> set gs" for g
    using that st by (auto simp: dict_values_def)
  show "\<forall>g\<in>set gs. count_val g = int (length (objects g))"
    using ent facet_inv_entry(4) [OF inv] by blast
  show "\<forall>g\<in>set gs. \<exists>k. key g = keyf k \<and> label g = labf k"
    using ent facet_inv_entry(1,2) [OF inv] by blast
  show "distinct (map key gs)" if "inj keyf"
  proof -
    have "distinct (map keyf (map fst d))"
      using facet_inv_keys(1) [OF inv] that by (simp add: distinct_map inj_on_def inj_def)
    then show ?thesis
      using distinct_map_mset [OF ms, of key] facet_inv_map_key(1) [OF inv] by simp
  qed
  show "distinct (map label gs)" if "inj labf"
  proof -
    have "distinct (map labf (map fst d))"
      using facet_inv_keys(1) [OF inv] that by (simp add: distinct_map inj_on_def inj_def)
    then show ?thesis
      using distinct_map_mset [OF ms, of label] facet_inv_map_key(2) [OF inv] by simp
  qed
  show "\<forall>r\<in>set objs. groups_with r gs = (if kf r = None then 0 else 1)"
    using facet_inv_groups_with [OF inv] groups_with_mset [OF ms] by simp
  show "\<forall>r\<in>set objs. \<forall>k. kf r = Some k \<longrightarrow>
           (\<exists>g\<in>set gs. key g = keyf k \<and> label g = labf k \<and> r \<in> set (objects g))"
    using facet_inv_member [OF inv] st by simp
  show "sum_list (map count_val gs) = int (length (filter (\<lambda>r. kf r \<noteq> None) objs))"
    using facet_inv_sum [OF inv] sum_count_mset [OF ms] by simp
qed

subsection \<open>The multi-valued facets\<close>

lemma dict_inv_entry:
  assumes "dict_inv keyf d" "(k, g) \<in> set d"
  shows "key g = keyf k" "count_val g = int (length (objects g))"
  using assms by (auto simp: dict_inv_def list_all_iff)

lemma dict_inv_add:
  assumes inv: "dict_inv keyf d"
    and fresh: "key fresh = keyf k" "count_val fresh = 0" "objects fresh = []"
  shows "dict_inv keyf (group_add d k fresh obj)"
proof -
  let ?P = "\<lambda>(k', g). key g = keyf k' \<and> count_val g = int (length (objects g))"
  have dist: "distinct (map fst d)" using inv by (simp add: dict_inv_def)
  have ent: "\<And>k' g. (k', g) \<in> set d \<Longrightarrow> ?P (k', g)"
    using inv by (auto simp: dict_inv_def list_all_iff)
  have dist': "distinct (map fst (group_add d k fresh obj))"
    using dist by (simp add: group_add_keys dict_has_iff)
  have bumped: "?P (k', bump obj g)" if "?P (k', g)" for k' g
    using that by simp
  have ent': "?P e" if e: "e \<in> set (group_add d k fresh obj)" for e
  proof (cases "dict_has d k")
    case False
    have "?P (k, fresh)" using fresh by simp
    then have new: "?P (k, bump obj fresh)" by (rule bumped)
    from e have "e \<in> set d \<or> e = (k, bump obj fresh)"
      by (auto simp: group_add_new [OF False])
    then show ?thesis
    proof
      assume ed: "e \<in> set d"
      obtain k' g where eq: "e = (k', g)" by (cases e)
      show ?thesis unfolding eq using ed eq by (intro ent) simp
    next
      assume eq: "e = (k, bump obj fresh)"
      show ?thesis unfolding eq by (rule new)
    qed
  next
    case True
    from e obtain k' g where kg: "(k', g) \<in> set d"
      and eq: "e = (if k' = k then (k', bump obj g) else (k', g))"
      by (auto simp: group_add_old [OF True])
    show ?thesis
    proof (cases "k' = k")
      case True
      then have eq': "e = (k', bump obj g)" using eq by simp
      show ?thesis unfolding eq' by (rule bumped) (rule ent [OF kg])
    next
      case False
      then have eq': "e = (k', g)" using eq by simp
      show ?thesis unfolding eq' by (rule ent [OF kg])
    qed
  qed
  show ?thesis
    unfolding dict_inv_def list_all_iff
    using dist' ent' by blast
qed

lemma dict_inv_empty: "dict_inv keyf []"
  by (simp add: dict_inv_def)

lemma foldl_preserves:
  assumes "\<And>s x. P s \<Longrightarrow> P (f s x)" "P s"
  shows "P (foldl f s xs)"
  using assms(2) by (induction xs arbitrary: s) (simp_all add: assms(1))

lemma fold_err_preserves:
  assumes "\<And>s x s'. P s \<Longrightarrow> f s x = Inr s' \<Longrightarrow> P s'" "P s" "fold_err f s xs = Inr t"
  shows "P t"
  using assms(2,3)
proof (induction xs arbitrary: s)
  case Nil
  then show ?case by simp
next
  case (Cons x xs)
  then obtain s' where s': "f s x = Inr s'" "fold_err f s' xs = Inr t"
    by (auto split: sum.splits)
  show ?case using Cons.IH [OF assms(1) [OF Cons.prems(1) s'(1)] s'(2)] .
qed

lemma people_inv:
  assumes "fold_err people_step [] objs = Inr d"
  shows "dict_inv (\<lambda>k. k) d"
proof -
  have cr: "dict_inv (\<lambda>k. k) s'" if "dict_inv (\<lambda>k. k) s" "creator_step obj s c = Inr s'" for obj s c s'
  proof -
    from that(2) obtain cid cname where
      "s' = group_add s cid \<lparr>key = cid, label = cname, count_val = 0,
                       extras = [(''people_id'', cid), (''sort_name'', cname)],
                       objects = []\<rparr> obj"
      by (auto simp: creator_step_def split: option.splits)
    then show ?thesis using that(1) by (simp add: dict_inv_add)
  qed
  have pp: "dict_inv (\<lambda>k. k) s'" if a: "dict_inv (\<lambda>k. k) s" and b: "people_step s obj = Inr s'" for obj s s'
  proof (cases "s' = s")
    case True
    then show ?thesis using a by simp
  next
    case False
    then obtain cs where cs: "fold_err (creator_step obj) s cs = Inr s'"
      using b by (auto simp: people_step_def split: sum.splits if_splits option.splits)
    show ?thesis
    proof (rule fold_err_preserves [where P = "dict_inv (\<lambda>k. k)" and f = "creator_step obj"
          and s = s and xs = cs])
      show "dict_inv (\<lambda>k. k) t'" if "dict_inv (\<lambda>k. k) t" "creator_step obj t c = Inr t'" for t c t'
        using that by (rule cr)
      show "dict_inv (\<lambda>k. k) s" by (rule a)
      show "fold_err (creator_step obj) s cs = Inr s'" by (rule cs)
    qed
  qed
  show ?thesis
  proof (rule fold_err_preserves [where P = "dict_inv (\<lambda>k. k)" and f = people_step
        and s = "[]" and xs = objs])
    show "dict_inv (\<lambda>k. k) t'" if "dict_inv (\<lambda>k. k) t" "people_step t c = Inr t'" for t c t'
      using that by (rule pp)
    show "dict_inv (\<lambda>k. k) []" by (rule dict_inv_empty)
    show "fold_err people_step [] objs = Inr d" by (rule assms)
  qed
qed

lemma subjects_inv:
  assumes "fold_err (subjects_step sm) [] objs = Inr d"
  shows "dict_inv (\<lambda>k. k) d"
proof -
  have sj: "dict_inv (\<lambda>k. k) (subj_step sm obj s c)" if "dict_inv (\<lambda>k. k) s" for obj s c
  proof (cases "sm c")
    case None
    then show ?thesis using that by (simp add: subj_step_def)
  next
    case (Some nm)
    then show ?thesis using that by (simp add: subj_step_def dict_inv_add)
  qed
  have ss: "dict_inv (\<lambda>k. k) s'" if a: "dict_inv (\<lambda>k. k) s" and b: "subjects_step sm s obj = Inr s'" for obj s s'
  proof (cases "s' = s")
    case True
    then show ?thesis using a by simp
  next
    case False
    then obtain its where its: "s' = foldl (subj_step sm obj) s its"
      using b by (auto simp: subjects_step_def split: option.splits)
    show ?thesis
      unfolding its
    proof (rule foldl_preserves [where P = "dict_inv (\<lambda>k. k)"])
      show "dict_inv (\<lambda>k. k) (subj_step sm obj t c)" if "dict_inv (\<lambda>k. k) t" for t c
        using that by (rule sj)
      show "dict_inv (\<lambda>k. k) s" by (rule a)
    qed
  qed
  show ?thesis
  proof (rule fold_err_preserves [where P = "dict_inv (\<lambda>k. k)" and f = "subjects_step sm"
        and s = "[]" and xs = objs])
    show "dict_inv (\<lambda>k. k) t'" if "dict_inv (\<lambda>k. k) t" "subjects_step sm t c = Inr t'" for t c t'
      using that by (rule ss)
    show "dict_inv (\<lambda>k. k) []" by (rule dict_inv_empty)
    show "fold_err (subjects_step sm) [] objs = Inr d" by (rule assms)
  qed
qed

lemma dict_result:
  assumes inv: "dict_inv (\<lambda>k. k) d" and res: "py_sort f rv (dict_values d) = Inr gs"
  shows "\<forall>g\<in>set gs. count_val g = int (length (objects g))" and "distinct (map key gs)"
proof -
  have ms: "mset gs = mset (dict_values d)" using res by (rule py_sort_mset)
  then have st: "set gs = set (dict_values d)" by (rule mset_eq_setD)
  have ent: "\<exists>k. (k, g) \<in> set d" if "g \<in> set gs" for g
    using that st by (auto simp: dict_values_def)
  show "\<forall>g\<in>set gs. count_val g = int (length (objects g))"
    using ent dict_inv_entry(2) [OF inv] by blast
  have "map key (dict_values d) = map fst d"
    using dict_inv_entry(1) [OF inv] by (auto simp: dict_values_def)
  moreover have "distinct (map fst d)" using inv by (simp add: dict_inv_def)
  ultimately show "distinct (map key gs)"
    using distinct_map_mset [OF ms, of key] by simp
qed

subsection \<open>The publication facet is not sorted by publication name\<close>

text \<open>
  C4. The claim is that \<^verbatim>\<open>aggregate_publication\<close> returns its groups in ascending order of
  the publication label. On the two records with the publications \<^verbatim>\<open>B\<close> and \<^verbatim>\<open>A\<close>, in
  that order, the code returns the group of \<^verbatim>\<open>B\<close> before the group of \<^verbatim>\<open>A\<close>: no group
  descriptor has an entry \<^verbatim>\<open>publication\<close>, so \<^verbatim>\<open>get_sort_publication\<close> gives every group the
  sort key \<^verbatim>\<open>''\<close> and the stable sort leaves the groups in the order of first occurrence.
\<close>

theorem C4_publication_first_seen_order:
  "aggregate_publication
     [no_fields\<lparr>publication := Some ''B''\<rparr>, no_fields\<lparr>publication := Some ''A''\<rparr>] =
   Inr [\<lparr>key = ''B'', label = ''B'', count_val = 1, extras = [(''year'', '''')],
          objects = [no_fields\<lparr>publication := Some ''B''\<rparr>]\<rparr>,
        \<lparr>key = ''A'', label = ''A'', count_val = 1, extras = [(''year'', '''')],
          objects = [no_fields\<lparr>publication := Some ''A''\<rparr>]\<rparr>]
   \<and> \<not> (''B'' \<le> ''A'')"
  by (simp add: aggregate_publication_def publication_step_def group_add_def dict_has_def
      bump_def py_sort_def get_sort_publication_def dict_values_def no_fields_def
      get_date_year_def slugify_def replace_char_def)


lemma make_label_Nil: "make_label [] (CHR ''_'') = []"
  by (simp add: make_label_def)

subsection \<open>The event facet groups every record\<close>



subsection \<open>The type facet groups every record\<close>

text \<open>
  C10. \<^verbatim>\<open>aggregate_types\<close> returns a result for every input; the counts of its groups add
  up to the number of input records, every input record is among the objects of exactly
  one group, and a record with no \<^verbatim>\<open>type\<close> is in a group whose key and label are the
  empty string.
\<close>

theorem C10_types_groups_every_record:
  "\<exists>gs. aggregate_types objs = Inr gs \<and>
        sum_list (map count_val gs) = int (length objs) \<and>
        (\<forall>r\<in>set objs. groups_with r gs = 1) \<and>
        (\<forall>r\<in>set objs. otype r = None \<longrightarrow>
           (\<exists>g\<in>set gs. key g = '''' \<and> label g = '''' \<and> r \<in> set (objects g)))"
proof -
  let ?d = "foldl types_step [] objs"
  obtain gs where res: "py_sort (\<lambda>g. Inr (key g)) False (dict_values ?d) = Inr gs"
    by (simp add: py_sort_total)
  have one: "\<forall>r\<in>set objs. groups_with r gs = 1"
    using facet_result(5) [OF types_inv res] by (simp add: type_of_def)
  have total: "sum_list (map count_val gs) = int (length objs)"
    using facet_result(7) [OF types_inv res] by (simp add: type_of_def)
  have empty: "\<exists>g\<in>set gs. key g = '''' \<and> label g = '''' \<and> r \<in> set (objects g)"
    if "r \<in> set objs" "otype r = None" for r
  proof -
    have "type_of r = Some ''''" using that(2) by (simp add: type_of_def get_object_type_def)
    with facet_result(6) [OF types_inv res] that(1) show ?thesis
      by (fastforce simp: make_label_Nil)
  qed
  show ?thesis using res one total empty by (auto simp: aggregate_types_def)
qed

theorem C10_types_groups_every_record_witness:
  "\<exists>gs. aggregate_types [no_fields, no_fields\<lparr>otype := Some ''book''\<rparr>] = Inr gs \<and>
        sum_list (map count_val gs) = 2 \<and>
        groups_with no_fields gs = 1 \<and>
        (\<exists>g\<in>set gs. key g = '''' \<and> label g = '''' \<and> no_fields \<in> set (objects g))"
  using C10_types_groups_every_record [of "[no_fields, no_fields\<lparr>otype := Some ''book''\<rparr>]"]
  by (auto simp: no_fields_def)

lemma key_list_Inl_elem: "key_list f xs = Inl e \<Longrightarrow> \<exists>x\<in>set xs. f x = Inl e"
  by (induction xs) (auto split: sum.splits)

lemma py_sort_Inl_elem: "py_sort f r xs = Inl e \<Longrightarrow> \<exists>x\<in>set xs. f x = Inl e"
  using key_list_Inl_elem [of f xs e] by (auto simp: py_sort_def split: sum.splits)

lemma int_key_Inl: "int_key g = Inl e \<longleftrightarrow> e = ValueError (key g) \<and> py_int (key g) = None"
  by (auto simp: int_key_def split: option.splits)

lemma ids_keys: "set (map key (dict_values (foldl ids_step [] objs))) = get_eprint_id ` set objs"
proof -
  have "set (map fst (foldl ids_step [] objs)) = {k. \<exists>r\<in>set objs. id_of r = Some k}"
    by (rule facet_inv_keys(2) [OF ids_inv])
  then show ?thesis
    using facet_inv_map_key(1) [OF ids_inv, of objs] by (auto simp: id_of_def)
qed

subsection \<open>The identifier facet: numeric order, or an error\<close>

text \<open>
  C6. If the identifier of some record (the key of its group) is not an integer literal,
  \<^verbatim>\<open>aggregate_ids\<close> raises \<^verbatim>\<open>ValueError\<close> on such a key and returns nothing. Otherwise it
  returns the groups, one for each identifier of the input, in ascending order of the
  integer value of their keys. So it raises if and only if some group key cannot be parsed
  as an integer; the identifiers 10, 2, 33 come out in the order 2, 10, 33.
\<close>

theorem C6_ids_numeric_order_or_error:
  "(if \<exists>r\<in>set objs. py_int (get_eprint_id r) = None
    then \<exists>k. aggregate_ids objs = Inl (ValueError k) \<and> py_int k = None \<and>
             k \<in> get_eprint_id ` set objs
    else \<exists>gs. aggregate_ids objs = Inr gs \<and>
              sorted (map (\<lambda>g. the (py_int (key g))) gs) \<and>
              distinct (map key gs) \<and>
              set (map key gs) = get_eprint_id ` set objs)"
proof (cases "\<exists>r\<in>set objs. py_int (get_eprint_id r) = None")
  case True
  let ?gs0 = "dict_values (foldl ids_step [] objs)"
  from True have "\<exists>k\<in>set (map key ?gs0). py_int k = None"
    unfolding ids_keys by blast
  then have "\<exists>g\<in>set ?gs0. \<exists>e. int_key g = Inl e"
    by (auto simp: int_key_Inl)
  then obtain e where e: "py_sort int_key False ?gs0 = Inl e"
    using py_sort_Inl_iff [of int_key False ?gs0] by blast
  then obtain g where g: "g \<in> set ?gs0" "int_key g = Inl e"
    using py_sort_Inl_elem by blast
  then have "e = ValueError (key g)" "py_int (key g) = None" by (simp_all add: int_key_Inl)
  moreover have "key g \<in> get_eprint_id ` set objs" using g(1) ids_keys [of objs] by auto
  ultimately show ?thesis using True e by (auto simp: aggregate_ids_def)
next
  case False
  let ?gs0 = "dict_values (foldl ids_step [] objs)"
  have ok: "py_int (key g) \<noteq> None" if "g \<in> set ?gs0" for g
  proof -
    have "key g \<in> set (map key ?gs0)" using that by simp
    then obtain r where "r \<in> set objs" "key g = get_eprint_id r"
      unfolding ids_keys by blast
    then show ?thesis using False by auto
  qed
  then have "\<not> (\<exists>g\<in>set ?gs0. \<exists>e. int_key g = Inl e)" by (auto simp: int_key_Inl)
  then have "\<not> (\<exists>e. py_sort int_key False ?gs0 = Inl e)"
    using py_sort_Inl_iff [of int_key False ?gs0] by blast
  then obtain gs where res: "py_sort int_key False ?gs0 = Inr gs"
    by (cases "py_sort int_key False ?gs0") auto
  have ms: "mset gs = mset ?gs0" using res by (rule py_sort_mset)
  then have st: "set gs = set ?gs0" by (rule mset_eq_setD)
  have "sorted (map (\<lambda>g. projr (int_key g)) gs)" using res by (rule py_sort_sorted)
  moreover have "map (\<lambda>g. projr (int_key g)) gs = map (\<lambda>g. the (py_int (key g))) gs"
  proof (rule map_cong [OF refl])
    fix g assume "g \<in> set gs"
    then obtain n where "py_int (key g) = Some n" using ok st by auto
    then show "projr (int_key g) = the (py_int (key g))" by (simp add: int_key_def)
  qed
  ultimately have srt: "sorted (map (\<lambda>g. the (py_int (key g))) gs)" by simp
  have dst: "distinct (map key gs)"
    using facet_result(2) [OF ids_inv res] by (simp add: inj_def)
  have keys: "set (map key gs) = get_eprint_id ` set objs"
    using ids_keys [of objs] st by simp
  show ?thesis using False res srt dst keys by (auto simp: aggregate_ids_def)
qed

lemma py_int_ex: "py_int ''10'' = Some 10" "py_int ''2'' = Some 2" "py_int ''33'' = Some 33" "py_int [] = None"
  by (simp_all add: py_int_def is_int_space_def is_digit_def digit_val_def)

theorem C6_ids_numeric_order_or_error_witness:
  "map_sum id (map key) (aggregate_ids ex_ids) = Inr [''2'', ''10'', ''33''] \<and>
   (\<exists>gs. aggregate_ids ex_ids = Inr gs \<and> sorted (map (\<lambda>g. the (py_int (key g))) gs)) \<and>
   (\<exists>k. aggregate_ids [no_fields] = Inl (ValueError k))"
proof -
  have a: "map_sum id (map key) (aggregate_ids ex_ids) = Inr [''2'', ''10'', ''33'']"
    by (simp add: ex_ids_def aggregate_ids_def ids_step_def group_add_def dict_has_def
        bump_def py_sort_def int_key_def dict_values_def no_fields_def get_eprint_id_def py_int_ex
        Let_def)
  have b: "\<not> (\<exists>r\<in>set ex_ids. py_int (get_eprint_id r) = None)"
    by (simp add: ex_ids_def no_fields_def get_eprint_id_def py_int_ex)
  have c: "\<exists>r\<in>set [no_fields]. py_int (get_eprint_id r) = None"
    by (simp add: no_fields_def get_eprint_id_def py_int_ex)
  show ?thesis
    using a C6_ids_numeric_order_or_error [of ex_ids] C6_ids_numeric_order_or_error [of "[no_fields]"] b c
    by (simp only: if_True if_False) blast
qed

subsection \<open>The latest facet\<close>

lemma latest_step_empty:
  "latest_step thr [] obj = (if window_test thr obj then Inl (NameError ''lastest'') else Inr [])"
  by (simp add: latest_step_def dict_has_def Let_def)

lemma latest_scan:
  "fold_err (latest_step thr) [] objs =
     (if list_ex (window_test thr) objs then Inl (NameError ''lastest'') else Inr [])"
  by (induction objs) (simp_all add: latest_step_empty)

lemma py_sort_Nil: "py_sort f r [] = Inr []"
  by (simp add: py_sort_def)

lemma aggregate_latest_eq:
  "aggregate_latest today objs =
     (case seven_days_ago today of
        Inl e \<Rightarrow> Inl e
      | Inr thr \<Rightarrow> if list_ex (window_test thr) objs then Inl (NameError ''lastest'') else Inr [])"
  by (simp add: aggregate_latest_def latest_scan py_sort_Nil dict_values_def split: sum.splits)

lemma next_day_year_step:
  assumes "d_year d = y \<or> (d_year d = y + 1 \<and> d_month d = 1 \<and> d_day d \<le> n)" "n < 31"
  shows "d_year (next_day d) = y \<or>
         (d_year (next_day d) = y + 1 \<and> d_month (next_day d) = 1 \<and> d_day (next_day d) \<le> n + 1)"
  using assms by (auto simp: next_day_def days_in_month_def)

lemma next_days_year:
  "n \<le> 31 \<Longrightarrow> d_year ((next_day ^^ n) d) = d_year d \<or>
     (d_year ((next_day ^^ n) d) = d_year d + 1 \<and> d_month ((next_day ^^ n) d) = 1 \<and>
      d_day ((next_day ^^ n) d) \<le> n)"
proof (induction n)
  case 0
  then show ?case by simp
next
  case (Suc n)
  then have "n < 31" and ih: "d_year ((next_day ^^ n) d) = d_year d \<or>
     (d_year ((next_day ^^ n) d) = d_year d + 1 \<and> d_month ((next_day ^^ n) d) = 1 \<and>
      d_day ((next_day ^^ n) d) \<le> n)" by simp_all
  from next_day_year_step [OF ih \<open>n < 31\<close>] show ?case by simp
qed

text \<open>The window bound exists for every date of the years 1 to 9998.\<close>

lemma seven_days_ago_defined:
  assumes "1 \<le> d_year today" "d_year today < 9999"
  shows "\<exists>thr. seven_days_ago today = Inr thr"
proof -
  have "d_year ((next_day ^^ 7) today) = d_year today \<or>
        d_year ((next_day ^^ 7) today) = d_year today + 1"
    using next_days_year [of 7 today] by auto
  then have "1 \<le> d_year ((next_day ^^ 7) today) \<and> d_year ((next_day ^^ 7) today) \<le> 9999"
    using assms by auto
  then show ?thesis
    by (simp add: seven_days_ago_def date_sub_def date_add_def)
qed

text \<open>
  C9. \<^verbatim>\<open>aggregate_latest\<close> never returns a non-empty list. With \<open>thr\<close> the date string
  the code compares with: if no record passes the window test the result is the empty
  list, and if some record passes it the call raises \<^verbatim>\<open>NameError\<close> for the name
  \<^verbatim>\<open>lastest\<close>. There is such a \<open>thr\<close> at every date of call of the years 1 to 9998.
\<close>

theorem C9_latest_empty_or_name_error:
  "(\<forall>g gs. aggregate_latest today objs \<noteq> Inr (g # gs)) \<and>
   (\<forall>thr. seven_days_ago today = Inr thr \<longrightarrow>
      aggregate_latest today objs =
        (if list_ex (window_test thr) objs then Inl (NameError ''lastest'') else Inr [])) \<and>
   (1 \<le> d_year today \<and> d_year today < 9999 \<longrightarrow> (\<exists>thr. seven_days_ago today = Inr thr))"
proof (intro conjI)
  show "\<forall>g gs. aggregate_latest today objs \<noteq> Inr (g # gs)"
    by (simp add: aggregate_latest_eq split: sum.splits)
  show "\<forall>thr. seven_days_ago today = Inr thr \<longrightarrow>
      aggregate_latest today objs =
        (if list_ex (window_test thr) objs then Inl (NameError ''lastest'') else Inr [])"
    by (simp add: aggregate_latest_eq)
  show "1 \<le> d_year today \<and> d_year today < 9999 \<longrightarrow> (\<exists>thr. seven_days_ago today = Inr thr)"
    using seven_days_ago_defined by blast
qed

lemma funpow7: "(f ^^ 7) x = f (f (f (f (f (f (f x))))))"
  by (simp add: eval_nat_numeral)

lemma seven_days_ago_jan12: "seven_days_ago jan12 = Inr ''2024-01-19''"
  by (simp add: jan12_def seven_days_ago_def date_sub_def date_add_def funpow7 next_day_def
      days_in_month_def is_leap_def isoformat_def digit_char_def)


text \<open>
  C1. The claim is that a record is in the result of \<^verbatim>\<open>aggregate_latest\<close> exactly when
  its \<^verbatim>\<open>lastmod\<close> date is not before the day seven days before today, so that a record
  modified on 2024-01-10 is in the result of a call on 2024-01-12. In the code
  \<^verbatim>\<open>today - timedelta(days = -7)\<close> is the day seven days after today, 2024-01-19, and
  the call on 2024-01-12 returns the empty list for that record.
\<close>

theorem C1_latest_window_is_ahead:
  "seven_days_ago jan12 = Inr ''2024-01-19'' \<and>
   aggregate_latest jan12 [no_fields\<lparr>lastmod := Some ''2024-01-10T00:00:00Z''\<rparr>] = Inr []"
  by (simp add: seven_days_ago_jan12 aggregate_latest_eq window_test_def get_lastmod_date_def no_fields_def)


theorem C9_latest_empty_or_name_error_witness:
  "aggregate_latest jan12 [no_fields\<lparr>lastmod := Some ''2024-01-20T00:00:00Z''\<rparr>]
     = Inl (NameError ''lastest'') \<and>
   aggregate_latest jan12 [no_fields\<lparr>lastmod := Some ''2024-01-18T00:00:00Z''\<rparr>] = Inr []"
  using C9_latest_empty_or_name_error [of jan12 "[no_fields\<lparr>lastmod := Some ''2024-01-20T00:00:00Z''\<rparr>]"]
    C9_latest_empty_or_name_error [of jan12 "[no_fields\<lparr>lastmod := Some ''2024-01-18T00:00:00Z''\<rparr>]"]
  by (simp add: seven_days_ago_jan12 window_test_def get_lastmod_date_def no_fields_def)

subsection \<open>The people facet\<close>

text \<open>
  C3. The claim is that in a record with an identified creator, a creator that lacks an
  identifier contributes no group and causes no failure. The record below has one creator
  with identifier and display name and one creator with a display name only;
  \<^verbatim>\<open>aggregate_people\<close> raises \<^verbatim>\<open>KeyError\<close> at \<^verbatim>\<open>creator['id']\<close> of the second.
\<close>

theorem C3_people_creator_without_id:
  "aggregate_people
     [no_fields\<lparr>creators := Some [\<lparr>creator_id = Some ''a'', display_name = Some ''A''\<rparr>,
                                   \<lparr>creator_id = None, display_name = Some ''B''\<rparr>]\<rparr>]
   = Inl (KeyError ''id'')"
  by (simp add: aggregate_people_def people_step_def has_creator_ids_def creator_step_def
      no_fields_def group_add_def dict_has_def bump_def)

subsection \<open>Counts and keys of a result\<close>

lemma slug_facet_result:
  assumes inv: "facet_inv kf slugify (\<lambda>k. k) objs d"
    and res: "py_sort f rv (dict_values d) = Inr gs"
  shows "(\<forall>g\<in>set gs. count_val g = int (length (objects g))) \<and>
         distinct (map label gs) \<and> (\<forall>g\<in>set gs. key g = slugify (label g))"
  using facet_result(1,4) [OF inv res] facet_result(3) [OF inv res] by (auto simp: inj_def)

lemma key_facet_result:
  assumes inv: "facet_inv kf (\<lambda>k. k) labf objs d"
    and res: "py_sort f rv (dict_values d) = Inr gs"
  shows "(\<forall>g\<in>set gs. count_val g = int (length (objects g))) \<and> distinct (map key gs)"
  using facet_result(1) [OF inv res] facet_result(2) [OF inv res] by (auto simp: inj_def)

lemma people_result:
  assumes "aggregate_people objs = Inr gs"
  shows "(\<forall>g\<in>set gs. count_val g = int (length (objects g))) \<and> distinct (map key gs)"
proof -
  from assms obtain d where d: "fold_err people_step [] objs = Inr d"
    and res: "py_sort (\<lambda>g. Inr (get_sort_name g)) False (dict_values d) = Inr gs"
    by (auto simp: aggregate_people_def split: sum.splits)
  show ?thesis using dict_result [OF people_inv [OF d] res] by simp
qed

lemma subjects_result:
  assumes "aggregate_subjects objs sm = Inr gs"
  shows "(\<forall>g\<in>set gs. count_val g = int (length (objects g))) \<and> distinct (map key gs)"
proof -
  from assms obtain d where d: "fold_err (subjects_step sm) [] objs = Inr d"
    and res: "py_sort (\<lambda>g. Inr (get_sort_subject g)) False (dict_values d) = Inr gs"
    by (auto simp: aggregate_subjects_def split: sum.splits)
  show ?thesis using dict_result [OF subjects_inv [OF d] res] by simp
qed

lemma latest_result: "aggregate_latest today objs = Inr gs \<Longrightarrow> gs = []"
  by (auto simp: aggregate_latest_eq split: sum.splits if_splits)

text \<open>
  C5, as amended. In the result of every facet operation the count of each group is the
  number of its objects. The keys of the groups are pairwise distinct in the results of the
  people, year, ISSN, subject, identifier, type and latest facets. In the results of the
  publication, collection and event facets the labels are pairwise distinct and the key of
  each group is the slug of its label.
\<close>

theorem C5_counts_and_distinct_keys:
  assumes "run_facet f today sm objs = Inr gs"
  shows "(\<forall>g\<in>set gs. count_val g = int (length (objects g))) \<and>
         (if f = Publication \<or> f = Collection \<or> f = Event
          then distinct (map label gs) \<and> (\<forall>g\<in>set gs. key g = slugify (label g))
          else distinct (map key gs))"
proof (cases f)
  case People
  then show ?thesis using assms people_result by simp
next
  case Person_az
  then show ?thesis using assms people_result by (simp add: aggregate_person_az_def)
next
  case Person
  then show ?thesis using assms people_result by (simp add: aggregate_person_def)
next
  case Author
  then show ?thesis using assms people_result by (simp add: aggregate_author_def)
next
  case Year
  then show ?thesis using assms key_facet_result [OF year_inv] by (simp add: aggregate_year_def)
next
  case Publication
  then show ?thesis
    using assms slug_facet_result [OF publication_inv] by (simp add: aggregate_publication_def)
next
  case Issn
  then show ?thesis using assms key_facet_result [OF issn_inv] by (simp add: aggregate_issn_def)
next
  case Collection
  then show ?thesis
    using assms slug_facet_result [OF collection_inv] by (simp add: aggregate_collection_def)
next
  case Event
  then show ?thesis
    using assms slug_facet_result [OF event_inv] by (simp add: aggregate_event_def)
next
  case Subjects
  then show ?thesis using assms subjects_result by simp
next
  case Ids
  then show ?thesis using assms key_facet_result [OF ids_inv] by (simp add: aggregate_ids_def)
next
  case Types
  then show ?thesis using assms key_facet_result [OF types_inv] by (simp add: aggregate_types_def)
next
  case Latest
  then have "gs = []" using assms latest_result [of today objs gs] by simp
  then show ?thesis using Latest by simp
qed

theorem C5_counts_and_distinct_keys_witness:
  "\<exists>gs. run_facet Event jan12 Map.empty [no_fields, no_fields\<lparr>event_title := Some ''W''\<rparr>] = Inr gs \<and>
        list_all (\<lambda>g. count_val g = int (length (objects g))) gs \<and>
        distinct (map label gs) \<and>
        map key gs = map slugify (map label gs)"
proof -
  obtain gs where gs: "run_facet Event jan12 Map.empty [no_fields, no_fields\<lparr>event_title := Some ''W''\<rparr>] = Inr gs"
    by (simp add: aggregate_event_def py_sort_total)
  show ?thesis
    using C5_counts_and_distinct_keys [OF gs] gs by (auto simp: list_all_iff)
qed

text \<open>
  C5 as stated fails: the publications \<^verbatim>\<open>a b\<close> and \<^verbatim>\<open>a/b\<close> are two dictionary keys of
  the scan and give two groups, both with the key \<^verbatim>\<open>a_b\<close>.
\<close>

theorem C5_publication_keys_collide:
  "map_sum id (map key)
     (aggregate_publication
        [no_fields\<lparr>publication := Some ''a b''\<rparr>, no_fields\<lparr>publication := Some ''a/b''\<rparr>])
   = Inr [''a_b'', ''a_b''] \<and> \<not> distinct [''a_b'', ''a_b'']"
  by (simp add: aggregate_publication_def publication_step_def group_add_def dict_has_def
      bump_def py_sort_def get_sort_publication_def dict_values_def no_fields_def
      get_date_year_def slugify_def replace_char_def)

subsection \<open>The date of the call\<close>





subsection \<open>Records that lack the field of a facet\<close>

lemma foldl_skip:
  assumes "\<And>d. step d r = d"
  shows "foldl step d0 (xs @ r # ys) = foldl step d0 (xs @ ys)"
  by (simp add: assms)

lemma fold_err_skip:
  assumes "\<And>d. step d r = Inr d"
  shows "fold_err step d0 (xs @ r # ys) = fold_err step d0 (xs @ ys)"
  by (induction xs arbitrary: d0) (simp_all add: assms split: sum.splits)

lemma key_list_cong: "(\<And>x. x \<in> set xs \<Longrightarrow> f x = g x) \<Longrightarrow> key_list f xs = key_list g xs"
  by (induction xs) (simp_all split: sum.splits)

lemma extras_add:
  assumes "list_all (\<lambda>e. Q (extras (snd e))) d" "Q (extras fresh)"
  shows "list_all (\<lambda>e. Q (extras (snd e))) (group_add d k fresh obj)"
  using assms by (auto simp: group_add_def list_all_iff)

lemma publication_extras:
  "list_all (\<lambda>e. map_of (extras (snd e)) ''publication'' = None) (foldl publication_step [] objs)"
proof (rule foldl_preserves)
  show "list_all (\<lambda>e. map_of (extras (snd e)) ''publication'' = None) []" by simp
next
  fix s :: gdict and x
  assume "list_all (\<lambda>e. map_of (extras (snd e)) ''publication'' = None) s"
  then show "list_all (\<lambda>e. map_of (extras (snd e)) ''publication'' = None) (publication_step s x)"
    by (cases "publication x")
      (simp_all add: publication_step_def
         extras_add [where Q = "\<lambda>ex. map_of ex ''publication'' = None"])
qed

text \<open>The publication facet returns its groups in the order of first occurrence.\<close>

lemma aggregate_publication_eq:
  "aggregate_publication objs = Inr (dict_values (foldl publication_step [] objs))"
proof -
  let ?gs = "dict_values (foldl publication_step [] objs)"
  have "get_sort_publication g = Inr ''''" if "g \<in> set ?gs" for g
    using that publication_extras [of objs]
    by (auto simp: get_sort_publication_def dict_values_def list_all_iff)
  then have "key_list get_sort_publication ?gs = key_list (\<lambda>g. Inr (''''::string)) ?gs"
    by (rule key_list_cong)
  then have "py_sort get_sort_publication False ?gs = py_sort (\<lambda>g. Inr (''''::string)) False ?gs"
    by (simp add: py_sort_def)
  then show ?thesis by (simp add: aggregate_publication_def py_sort_total sort_key_const)
qed

lemma latest_step_skip: "lastmod r = None \<Longrightarrow> latest_step thr d r = Inr d"
  by (simp add: latest_step_def window_test_def get_lastmod_date_def)

lemma aggregate_latest_skip:
  "lastmod r = None \<Longrightarrow> aggregate_latest today (xs @ r # ys) = aggregate_latest today (xs @ ys)"
proof -
  assume a: "lastmod r = None"
  have "fold_err (latest_step thr) [] (xs @ r # ys) = fold_err (latest_step thr) [] (xs @ ys)" for thr
    by (rule fold_err_skip) (simp add: latest_step_skip [OF a])
  then show ?thesis by (simp add: aggregate_latest_def split: sum.splits)
qed

lemma aggregate_subjects_skip:
  "subjects r = None \<Longrightarrow> aggregate_subjects (xs @ r # ys) sm = aggregate_subjects (xs @ ys) sm"
proof -
  assume "subjects r = None"
  then have "\<And>d. subjects_step sm d r = Inr d" by (simp add: subjects_step_def)
  then show ?thesis by (simp add: aggregate_subjects_def fold_err_skip)
qed

lemma empty_key_group:
  assumes inv: "facet_inv kf keyf labf objs d" and r: "r \<in> set objs" "kf r = Some ''''"
    and e: "keyf '''' = ''''" "labf '''' = ''''"
  shows "\<exists>gs. py_sort (\<lambda>g. Inr (h g)) rv (dict_values d) = Inr gs \<and>
              (\<exists>g\<in>set gs. key g = '''' \<and> label g = '''' \<and> r \<in> set (objects g))"
proof -
  obtain gs where res: "py_sort (\<lambda>g. Inr (h g)) rv (dict_values d) = Inr gs"
    by (simp add: py_sort_total)
  from facet_result(6) [OF inv res] r e
  have "\<exists>g\<in>set gs. key g = '''' \<and> label g = '''' \<and> r \<in> set (objects g)" by fastforce
  then show ?thesis using res by blast
qed

text \<open>
  C2. The claim is that no facet operation raises an error on a record that lacks the
  field the facet groups on, and in particular that \<^verbatim>\<open>aggregate_people\<close> does not fail on
  a record with no \<^verbatim>\<open>creators\<close> and \<^verbatim>\<open>aggregate_ids\<close> does not fail on a record with no
  \<^verbatim>\<open>eprint_id\<close>. On the one record with no field at all, the people facet raises
  \<^verbatim>\<open>KeyError\<close> at \<^verbatim>\<open>obj['creators']\<close> in \<^verbatim>\<open>has_creator_ids\<close>, and the identifier facet
  raises \<^verbatim>\<open>ValueError\<close> when the sort converts the empty key to an integer. On the one
  record whose \<^verbatim>\<open>subjects\<close> has no \<^verbatim>\<open>items\<close>, the subject facet raises \<^verbatim>\<open>KeyError\<close> at
  \<^verbatim>\<open>obj['subjects']['items']\<close>.
\<close>

theorem C2_people_ids_and_subjects_raise_on_missing_field:
  "aggregate_people [no_fields] = Inl (KeyError ''creators'') \<and>
   aggregate_ids [no_fields] = Inl (ValueError '''') \<and>
   aggregate_subjects [no_fields\<lparr>subjects := Some None\<rparr>] Map.empty = Inl (KeyError ''items'')"
  by (simp add: aggregate_people_def people_step_def has_creator_ids_def
      aggregate_ids_def ids_step_def get_eprint_id_def int_key_def py_int_ex
      aggregate_subjects_def subjects_step_def
      group_add_def dict_has_def bump_def py_sort_def dict_values_def no_fields_def Let_def)

end
